theory Spec2Isabelle
  imports Main "HOL-Library.Sublist"
begin

section \<open>Values read from the spreadsheet and the marketplace\<close>

text \<open>
  The exceptions the modelled functions of \<^verbatim>\<open>seller.py\<close> can raise. Every \<^verbatim>\<open>raise\<close> of the
  source is a value \<open>Inl e\<close> of the model.
\<close>

datatype error = ValueError | TypeError | AttributeError | IndexError | HTTPError

text \<open>
  A Python \<^verbatim>\<open>str\<close> is modelled as \<open>string\<close>, the list of the bytes of its UTF-8 encoding.
  Every character the code looks at (\<^verbatim>\<open>.\<close>, the digits, the sign, the underscore) is
  ASCII, and no byte of a multi-byte UTF-8 sequence is ASCII, so comparing, splitting and
  filtering agree on bytes and on code points.

  A cell of a spreadsheet row, as \<^verbatim>\<open>watch.get(key)\<close> returns it: a string, an integer, or
  \<^verbatim>\<open>None\<close> when the row has no such key. Floating-point cells are not modelled. An
  integer cell is a whole number the spreadsheet stores as a double, so it has at most
  309 digits, below the 4300 digits at which \<^verbatim>\<open>str\<close> of an integer raises.
\<close>

datatype cell = PyStr string | PyInt int | PyNone

text \<open>One row of \<^verbatim>\<open>ostatki.xls\<close>; the three columns the code reads.\<close>

record watch =
  Kod :: cell
  Kolichestvo :: cell
  Tsena :: cell

text \<open>The dictionaries the two reconciler functions build.\<close>

record stock_entry =
  offer_id :: string
  stock :: int

record price_entry =
  auto_action_enabled :: string
  currency_code :: string
  price_offer_id :: string
  old_price :: string
  price :: string

subsection \<open>\<^verbatim>\<open>str(x)\<close>\<close>

definition digit_chars :: string where
  "digit_chars = ''0123456789''"

fun str_of_nat :: "nat \<Rightarrow> string" where
  "str_of_nat n =
     (if n < 10 then [digit_chars ! n]
      else str_of_nat (n div 10) @ [digit_chars ! (n mod 10)])"

definition str_of_int :: "int \<Rightarrow> string" where
  "str_of_int i =
     (if i < 0 then CHR ''-'' # str_of_nat (nat (- i)) else str_of_nat (nat i))"

fun py_str :: "cell \<Rightarrow> string" where
  "py_str (PyStr s) = s"
| "py_str (PyInt i) = str_of_int i"
| "py_str PyNone = ''None''"

subsection \<open>\<^verbatim>\<open>int(x)\<close>\<close>

text \<open>
  \<^verbatim>\<open>int\<close> is a built-in of the interpreter; the model follows CPython 3.11 with the
  Unicode 14 character database. \<^verbatim>\<open>int(None)\<close> is a \<^verbatim>\<open>TypeError\<close>, \<^verbatim>\<open>int\<close> of an integer is
  the integer, and \<^verbatim>\<open>int\<close> of a string works in two steps.

  First (\<^verbatim>\<open>_PyUnicode_TransformDecimalAndSpaceToASCII\<close>) a string that is not pure ASCII is
  rewritten character by character: a code point below 127 stays, a Unicode white space
  becomes a blank, a Unicode decimal digit becomes the ASCII digit of the same value, and
  anything else becomes \<^verbatim>\<open>?\<close>. A pure ASCII string is left as it is.

  Then (\<^verbatim>\<open>PyLong_FromString\<close>, base 10) white space around the text is skipped, where
  white space is blank, \<^verbatim>\<open>\t\<close>, \<^verbatim>\<open>\n\<close>, \<^verbatim>\<open>\v\<close>, \<^verbatim>\<open>\f\<close> and \<^verbatim>\<open>\r\<close> only; an optional sign is
  read; then decimal digits, where a single underscore may stand between two digits; a
  text with more than 4300 digits is refused. Every failure is a \<^verbatim>\<open>ValueError\<close>.
\<close>

definition is_digit :: "char \<Rightarrow> bool" where
  "is_digit c = (c \<in> set digit_chars)"

text \<open>\<^verbatim>\<open>Py_ISSPACE\<close>.\<close>

definition is_space :: "char \<Rightarrow> bool" where
  "is_space c =
     (c \<in> set [CHR 0x09, CHR 0x0A, CHR 0x0B, CHR 0x0C, CHR 0x0D, CHR '' ''])"

definition strip :: "string \<Rightarrow> string" where
  "strip s = rev (dropWhile is_space (rev (dropWhile is_space s)))"

definition digit_val :: "char \<Rightarrow> nat" where
  "digit_val c = of_char c - 48"

fun digits_from :: "nat \<Rightarrow> string \<Rightarrow> nat option" where
  "digits_from acc [] = Some acc"
| "digits_from acc (c # cs) =
     (if is_digit c then digits_from (10 * acc + digit_val c) cs
      else if c = CHR ''_'' then
        (case cs of
           [] \<Rightarrow> None
         | d # ds \<Rightarrow>
             if is_digit d then digits_from (10 * acc + digit_val d) ds else None)
      else None)"

definition nat_of_digits :: "string \<Rightarrow> nat option" where
  "nat_of_digits s =
     (case s of
        [] \<Rightarrow> None
      | c # cs \<Rightarrow> if is_digit c then digits_from (digit_val c) cs else None)"

text \<open>The interpreter's default limit on the number of digits of a converted text.\<close>

definition max_str_digits :: nat where
  "max_str_digits = 4300"

definition parse_long :: "string \<Rightarrow> error + int" where
  "parse_long s =
     (case strip s of
        [] \<Rightarrow> Inl ValueError
      | c # cs \<Rightarrow>
          (let body = (if c = CHR ''-'' \<or> c = CHR ''+'' then cs else c # cs) in
           if max_str_digits < length (filter is_digit body) then Inl ValueError
           else (case nat_of_digits body of
                   None \<Rightarrow> Inl ValueError
                 | Some n \<Rightarrow> Inr (if c = CHR ''-'' then - int n else int n))))"

text \<open>
  The code points of a string, from its UTF-8 bytes. A byte list that is the encoding of
  no string gives \<open>None\<close>.
\<close>

definition is_cont :: "char \<Rightarrow> bool" where
  "is_cont c = (0x80 \<le> (of_char c :: nat) \<and> (of_char c :: nat) < 0xC0)"

definition cont_bits :: "char \<Rightarrow> nat" where
  "cont_bits c = of_char c - 0x80"

fun utf8_decode :: "string \<Rightarrow> nat list option" where
  "utf8_decode [] = Some []"
| "utf8_decode (b # bs) =
     (if (of_char b :: nat) < 0x80 then map_option ((#) (of_char b)) (utf8_decode bs)
      else if (of_char b :: nat) < 0xC0 then None
      else if (of_char b :: nat) < 0xE0 then
        (case bs of
           c1 # r \<Rightarrow>
             if is_cont c1
             then map_option ((#) ((of_char b - 0xC0) * 64 + cont_bits c1)) (utf8_decode r)
             else None
         | _ \<Rightarrow> None)
      else if (of_char b :: nat) < 0xF0 then
        (case bs of
           c1 # c2 # r \<Rightarrow>
             if is_cont c1 \<and> is_cont c2
             then map_option
                    ((#) (((of_char b - 0xE0) * 64 + cont_bits c1) * 64 + cont_bits c2))
                    (utf8_decode r)
             else None
         | _ \<Rightarrow> None)
      else if (of_char b :: nat) < 0xF8 then
        (case bs of
           c1 # c2 # c3 # r \<Rightarrow>
             if is_cont c1 \<and> is_cont c2 \<and> is_cont c3
             then map_option
                    ((#) ((((of_char b - 0xF0) * 64 + cont_bits c1) * 64 + cont_bits c2) * 64
                          + cont_bits c3))
                    (utf8_decode r)
             else None
         | _ \<Rightarrow> None)
      else None)"

text \<open>
  The two tables of the Unicode 14 character database that \<^verbatim>\<open>int\<close> consults: the white
  space (\<^verbatim>\<open>Py_UNICODE_ISSPACE\<close>) from code point 127 on, and the code points of the digit
  zero of every decimal digit system; the ten digits of a system are consecutive.
\<close>

definition unicode_spaces :: "nat list" where
  "unicode_spaces =
     [0x85, 0xA0, 0x1680, 0x2000, 0x2001, 0x2002, 0x2003, 0x2004, 0x2005, 0x2006,
      0x2007, 0x2008, 0x2009, 0x200A, 0x2028, 0x2029, 0x202F, 0x205F, 0x3000]"

definition decimal_zeros :: "nat list" where
  "decimal_zeros =
     [0x30, 0x660, 0x6F0, 0x7C0, 0x966, 0x9E6, 0xA66, 0xAE6, 0xB66, 0xBE6, 0xC66,
      0xCE6, 0xD66, 0xDE6, 0xE50, 0xED0, 0xF20, 0x1040, 0x1090, 0x17E0, 0x1810,
      0x1946, 0x19D0, 0x1A80, 0x1A90, 0x1B50, 0x1BB0, 0x1C40, 0x1C50, 0xA620,
      0xA8D0, 0xA900, 0xA9D0, 0xA9F0, 0xAA50, 0xABF0, 0xFF10, 0x104A0, 0x10D30,
      0x11066, 0x110F0, 0x11136, 0x111D0, 0x112F0, 0x11450, 0x114D0, 0x11650,
      0x116C0, 0x11730, 0x118E0, 0x11950, 0x11C50, 0x11D50, 0x11DA0, 0x16A60,
      0x16AC0, 0x16B50, 0x1D7CE, 0x1D7D8, 0x1D7E2, 0x1D7EC, 0x1D7F6, 0x1E140,
      0x1E2F0, 0x1E950, 0x1FBF0]"

definition unicode_decimal :: "nat \<Rightarrow> nat option" where
  "unicode_decimal c =
     (case filter (\<lambda>z. z \<le> c \<and> c < z + 10) decimal_zeros of
        [] \<Rightarrow> None
      | z # _ \<Rightarrow> Some (c - z))"

definition transform_char :: "nat \<Rightarrow> char" where
  "transform_char c =
     (if c < 127 then char_of c
      else if c \<in> set unicode_spaces then CHR '' ''
      else (case unicode_decimal c of
              None \<Rightarrow> CHR ''?''
            | Some d \<Rightarrow> char_of (48 + d)))"

definition is_ascii :: "string \<Rightarrow> bool" where
  "is_ascii s = list_all (\<lambda>c. (of_char c :: nat) < 128) s"

definition int_of_str :: "string \<Rightarrow> error + int" where
  "int_of_str s =
     (if is_ascii s then parse_long s
      else (case utf8_decode s of
              None \<Rightarrow> Inl ValueError
            | Some cps \<Rightarrow> parse_long (map transform_char cps)))"

fun py_int :: "cell \<Rightarrow> error + int" where
  "py_int (PyStr s) = int_of_str s"
| "py_int (PyInt i) = Inr i"
| "py_int PyNone = Inl TypeError"

section \<open>Price normalisation: \<^verbatim>\<open>price_conversion\<close>\<close>

text \<open>
  \<^verbatim>\<open>s.split(sep)\<close> for a one-character separator: the pieces between the occurrences of
  the separator; the result is never empty.
\<close>

fun split :: "char \<Rightarrow> string \<Rightarrow> string list" where
  "split sep [] = [[]]"
| "split sep (c # cs) =
     (if c = sep then [] # split sep cs
      else (case split sep cs of
              [] \<Rightarrow> [[c]]
            | p # ps \<Rightarrow> (c # p) # ps))"

text \<open>\<^verbatim>\<open>re.sub("[^0-9]", "", s)\<close>: every character outside \<^verbatim>\<open>0\<close>..\<^verbatim>\<open>9\<close> is deleted.\<close>

definition re_sub_non_digits :: "string \<Rightarrow> string" where
  "re_sub_non_digits s = filter is_digit s"

text \<open>
  \<^verbatim>\<open>return re.sub("[^0-9]", "", price.split(".")[0])\<close>. The index \<^verbatim>\<open>[0]\<close> raises
  \<^verbatim>\<open>IndexError\<close> on an empty list.
\<close>

definition price_conversion :: "string \<Rightarrow> error + string" where
  "price_conversion price_str =
     (case split (CHR ''.'') price_str of
        [] \<Rightarrow> Inl IndexError
      | p # _ \<Rightarrow> Inr (re_sub_non_digits p))"

text \<open>The two prices of the docstring; the Cyrillic letters are written as UTF-8 bytes.\<close>

definition rub :: string where
  "rub = [CHR 0xD1, CHR 0x80, CHR 0xD1, CHR 0x83, CHR 0xD0, CHR 0xB1]"

definition price_5990 :: string where
  "price_5990 = ''5'990.00 '' @ rub @ ''.''"

definition price_789 :: string where
  "price_789 = ''789 '' @ rub"

section \<open>The reconciler: \<^verbatim>\<open>create_stocks\<close> and \<^verbatim>\<open>create_prices\<close>\<close>

text \<open>
  Both functions receive two Python lists by reference. The model returns, next to the
  result (or the exception raised), the contents of both lists when the call ends, so
  that what the call does to its arguments can be stated.

  The first loop of \<^verbatim>\<open>create_stocks\<close>, with the list \<^verbatim>\<open>stocks\<close> built so far and the current
  contents of \<^verbatim>\<open>offer_ids\<close>:
  \<^verbatim>\<open>
    for watch in watch_remnants:
        if str(watch.get("Kod")) in offer_ids:
            count = str(watch.get("Kolichestvo"))
            if count == ">10":   stock = 100
            elif count == "1":   stock = 0
            else:                stock = int(watch.get("Kolichestvo"))
            stocks.append({"offer_id": str(watch.get("Kod")), "stock": stock})
            offer_ids.remove(str(watch.get("Kod")))
  \<close>
  (the column names are Cyrillic in the source). \<^verbatim>\<open>list.remove\<close> deletes the first
  occurrence, which is \<open>remove1\<close>.
\<close>

fun create_stocks_loop ::
  "watch list \<Rightarrow> stock_entry list \<Rightarrow> string list \<Rightarrow> (error + stock_entry list) \<times> string list"
where
  "create_stocks_loop [] stocks offer_ids = (Inr stocks, offer_ids)"
| "create_stocks_loop (w # ws) stocks offer_ids =
     (if py_str (Kod w) \<in> set offer_ids then
        (let count = py_str (Kolichestvo w) in
         case (if count = ''>10'' then Inr 100
               else if count = ''1'' then Inr 0
               else py_int (Kolichestvo w)) of
           Inl e \<Rightarrow> (Inl e, offer_ids)
         | Inr st \<Rightarrow>
             create_stocks_loop ws
               (stocks @ [\<lparr>offer_id = py_str (Kod w), stock = st\<rparr>])
               (remove1 (py_str (Kod w)) offer_ids))
      else create_stocks_loop ws stocks offer_ids)"

text \<open>
  The second loop appends a zero entry for every id still in \<^verbatim>\<open>offer_ids\<close>:
  \<^verbatim>\<open>for offer_id in offer_ids: stocks.append({"offer_id": offer_id, "stock": 0})\<close>.
\<close>

definition create_stocks ::
  "watch list \<Rightarrow> string list \<Rightarrow> (error + stock_entry list) \<times> watch list \<times> string list"
where
  "create_stocks watch_remnants offer_ids =
     (case create_stocks_loop watch_remnants [] offer_ids of
        (Inl e, ids) \<Rightarrow> (Inl e, watch_remnants, ids)
      | (Inr stocks, ids) \<Rightarrow>
          (Inr (foldl (\<lambda>st i. st @ [\<lparr>offer_id = i, stock = 0\<rparr>]) stocks ids),
           watch_remnants, ids))"

text \<open>
  \<^verbatim>\<open>create_prices\<close>: \<^verbatim>\<open>price_conversion(watch.get("Tsena"))\<close> calls \<^verbatim>\<open>.split\<close> on the cell,
  which raises \<^verbatim>\<open>AttributeError\<close> unless the cell is a string. Nothing is written to
  either argument.
\<close>

fun create_prices_loop ::
  "watch list \<Rightarrow> price_entry list \<Rightarrow> string list \<Rightarrow> error + price_entry list"
where
  "create_prices_loop [] prices offer_ids = Inr prices"
| "create_prices_loop (w # ws) prices offer_ids =
     (if py_str (Kod w) \<in> set offer_ids then
        (case (case Tsena w of
                 PyStr s \<Rightarrow> price_conversion s
               | PyInt _ \<Rightarrow> Inl AttributeError
               | PyNone \<Rightarrow> Inl AttributeError) of
           Inl e \<Rightarrow> Inl e
         | Inr p \<Rightarrow>
             create_prices_loop ws
               (prices @ [\<lparr>auto_action_enabled = ''UNKNOWN'', currency_code = ''RUB'',
                           price_offer_id = py_str (Kod w), old_price = ''0'', price = p\<rparr>])
               offer_ids)
      else create_prices_loop ws prices offer_ids)"

definition create_prices ::
  "watch list \<Rightarrow> string list \<Rightarrow> (error + price_entry list) \<times> watch list \<times> string list"
where
  "create_prices watch_remnants offer_ids =
     (create_prices_loop watch_remnants [] offer_ids, watch_remnants, offer_ids)"

text \<open>
  The reconciling part of \<^verbatim>\<open>main\<close>: \<^verbatim>\<open>create_stocks\<close>, then \<^verbatim>\<open>create_prices\<close> on the same two
  list objects. An exception of the first call ends the \<^verbatim>\<open>try\<close> block, so the second
  call is not made.
\<close>

definition reconciler ::
  "watch list \<Rightarrow> string list \<Rightarrow> error + (stock_entry list \<times> price_entry list)"
where
  "reconciler watch_remnants offer_ids =
     (case create_stocks watch_remnants offer_ids of
        (Inl e, _, _) \<Rightarrow> Inl e
      | (Inr stocks, ws, ids) \<Rightarrow>
          (case create_prices ws ids of
             (Inl e, _, _) \<Rightarrow> Inl e
           | (Inr prices, _, _) \<Rightarrow> Inr (stocks, prices)))"

text \<open>
  Two notions used to state what the stock pass does: the records that match during the
  pass (a record matches when its code is in the list at that moment), and the ids left
  in the list when the pass ends.
\<close>

fun matched :: "watch list \<Rightarrow> string list \<Rightarrow> watch list" where
  "matched [] ids = []"
| "matched (w # ws) ids =
     (if py_str (Kod w) \<in> set ids then w # matched ws (remove1 (py_str (Kod w)) ids)
      else matched ws ids)"

fun remaining :: "watch list \<Rightarrow> string list \<Rightarrow> string list" where
  "remaining [] ids = ids"
| "remaining (w # ws) ids =
     (if py_str (Kod w) \<in> set ids then remaining ws (remove1 (py_str (Kod w)) ids)
      else remaining ws ids)"

definition zero_entry :: "string \<Rightarrow> stock_entry" where
  "zero_entry i = \<lparr>offer_id = i, stock = 0\<rparr>"

text \<open>
  The stock computation of the loop body, on its own: what the \<^verbatim>\<open>if\<close>/\<^verbatim>\<open>elif\<close>/\<^verbatim>\<open>else\<close> of
  \<open>create_stocks_loop\<close> yields for a quantity cell. \<open>quantized w e\<close> says that \<open>e\<close> is the
  entry the loop body appends for the record \<open>w\<close>.
\<close>

definition loop_stock_value :: "cell \<Rightarrow> error + int" where
  "loop_stock_value q =
     (if py_str q = ''>10'' then Inr 100
      else if py_str q = ''1'' then Inr 0
      else py_int q)"

definition quantized :: "watch \<Rightarrow> stock_entry \<Rightarrow> bool" where
  "quantized w e =
     (offer_id e = py_str (Kod w) \<and> loop_stock_value (Kolichestvo w) = Inr (stock e))"

text \<open>
  The stock value as the specification words it, independent of the interpreter's
  \<^verbatim>\<open>int\<close>. A decimal literal is an optional sign followed by one to 4300 ASCII digits, and
  it denotes the number its digits give in positional notation. The quantity \<^verbatim>\<open>>10\<close> has
  the value 100, the quantity \<^verbatim>\<open>1\<close> the value 0, an integer cell has its own value and a
  decimal literal the integer it denotes; to other quantities the specification gives
  no value.
\<close>

fun pos_value :: "string \<Rightarrow> nat" where
  "pos_value [] = 0"
| "pos_value (c # cs) = digit_val c * 10 ^ length cs + pos_value cs"

definition digits_value :: "string \<Rightarrow> nat option" where
  "digits_value ds =
     (if ds \<noteq> [] \<and> list_all is_digit ds \<and> length ds \<le> 4300 then Some (pos_value ds)
      else None)"

definition literal_value :: "string \<Rightarrow> int option" where
  "literal_value s =
     (case s of
        [] \<Rightarrow> None
      | c # cs \<Rightarrow>
          if c = CHR ''-'' then map_option (\<lambda>n. - int n) (digits_value cs)
          else if c = CHR ''+'' then map_option int (digits_value cs)
          else map_option int (digits_value s))"

definition spec_stock_value :: "cell \<Rightarrow> int option" where
  "spec_stock_value q =
     (if py_str q = ''>10'' then Some 100
      else if py_str q = ''1'' then Some 0
      else (case q of
              PyStr s \<Rightarrow> literal_value s
            | PyInt i \<Rightarrow> Some i
            | PyNone \<Rightarrow> None))"

text \<open>
  \<open>quantization w e\<close>: the entry \<open>e\<close> carries the code of the record \<open>w\<close>, and its stock is
  the value the specification gives to the quantity of \<open>w\<close>; where the specification
  gives none, it is what \<^verbatim>\<open>int\<close> returns for the quantity.
\<close>

definition quantization :: "watch \<Rightarrow> stock_entry \<Rightarrow> bool" where
  "quantization w e =
     (offer_id e = py_str (Kod w) \<and>
      (case spec_stock_value (Kolichestvo w) of
         Some v \<Rightarrow> stock e = v
       | None \<Rightarrow> py_int (Kolichestvo w) = Inr (stock e)))"



text \<open>Rows used in the examples.\<close>

definition row :: "string \<Rightarrow> string \<Rightarrow> string \<Rightarrow> watch" where
  "row code qty pr = \<lparr>Kod = PyStr code, Kolichestvo = PyStr qty, Tsena = PyStr pr\<rparr>"

definition rows_AB :: "watch list" where
  "rows_AB = [row ''A'' ''>10'' ''5990.00'', row ''B'' ''1'' ''789'']"

definition rows_quantities :: "watch list" where
  "rows_quantities =
     [row ''A'' ''>10'' ''1.00'', row ''B'' ''1'' ''2.00'', row ''D'' ''7'' ''3.00'',
      row ''F'' ''250'' ''3.50'',
      \<lparr>Kod = PyInt 42, Kolichestvo = PyStr '' 25 '', Tsena = PyStr ''4.00''\<rparr>,
      \<lparr>Kod = PyStr ''G'', Kolichestvo = PyInt 3, Tsena = PyStr ''5.00''\<rparr>]"

definition rows_AXB :: "watch list" where
  "rows_AXB = [row ''A'' ''>10'' ''5990.00'', row ''X'' ''3'' ''100'', row ''B'' ''1'' ''789'']"

definition price_of :: "string \<Rightarrow> string \<Rightarrow> price_entry" where
  "price_of i p = \<lparr>auto_action_enabled = ''UNKNOWN'', currency_code = ''RUB'',
                    price_offer_id = i, old_price = ''0'', price = p\<rparr>"

definition stocks_ABC :: "stock_entry list" where
  "stocks_ABC = [\<lparr>offer_id = ''A'', stock = 100\<rparr>, \<lparr>offer_id = ''B'', stock = 0\<rparr>,
                 \<lparr>offer_id = ''C'', stock = 0\<rparr>]"

definition prices_AB :: "price_entry list" where
  "prices_AB = [price_of ''A'' ''5990'', price_of ''B'' ''789'']"

section \<open>The batch uploader: \<^verbatim>\<open>divide\<close>\<close>

text \<open>
  \<^verbatim>\<open>range(start, stop, step)\<close>: a zero step raises \<^verbatim>\<open>ValueError\<close>; a positive step counts
  up while below \<open>stop\<close>, a negative one counts down while above it.
\<close>

function py_range_up :: "int \<Rightarrow> int \<Rightarrow> int \<Rightarrow> int list" where
  "py_range_up i stop step =
     (if 0 < step \<and> i < stop then i # py_range_up (i + step) stop step else [])"
  by pat_completeness auto
termination
  by (relation "measure (\<lambda>(i, stop, step). nat (stop - i))") auto

function py_range_down :: "int \<Rightarrow> int \<Rightarrow> int \<Rightarrow> int list" where
  "py_range_down i stop step =
     (if step < 0 \<and> stop < i then i # py_range_down (i + step) stop step else [])"
  by pat_completeness auto
termination
  by (relation "measure (\<lambda>(i, stop, step). nat (i - stop))") auto

declare py_range_up.simps [simp del] py_range_down.simps [simp del]

definition py_range :: "int \<Rightarrow> int \<Rightarrow> int \<Rightarrow> error + int list" where
  "py_range start stop step =
     (if step = 0 then Inl ValueError
      else if 0 < step then Inr (py_range_up start stop step)
      else Inr (py_range_down start stop step))"

text \<open>
  \<^verbatim>\<open>lst[i:j]\<close>: a negative index counts from the end, and both indices are clamped to the
  list.
\<close>

definition clamp_index :: "nat \<Rightarrow> int \<Rightarrow> nat" where
  "clamp_index len k = (if k < 0 then nat (max 0 (int len + k)) else min (nat k) len)"

definition py_slice :: "'a list \<Rightarrow> int \<Rightarrow> int \<Rightarrow> 'a list" where
  "py_slice lst i j =
     take (clamp_index (length lst) j - clamp_index (length lst) i)
          (drop (clamp_index (length lst) i) lst)"

text \<open>
  \<^verbatim>\<open>for i in range(0, len(lst), n): yield lst[i : i + n]\<close>. Every caller wraps the
  generator in \<^verbatim>\<open>list(...)\<close>; the model is that list.
\<close>

definition divide :: "'a list \<Rightarrow> int \<Rightarrow> error + 'a list list" where
  "divide lst n =
     (case py_range 0 (int (length lst)) n of
        Inl e \<Rightarrow> Inl e
      | Inr idx \<Rightarrow> Inr (map (\<lambda>i. py_slice lst i (i + n)) idx))"

section \<open>The pagination fetcher: \<^verbatim>\<open>get_offer_ids\<close>\<close>

text \<open>
  \<^verbatim>\<open>get_product_list\<close> posts the cursor \<^verbatim>\<open>last_id\<close> to the marketplace and returns the
  \<^verbatim>\<open>result\<close> object of the reply, or raises on an HTTP error status. The marketplace is
  outside the program: a \<open>server\<close> gives the reply to the \<open>k\<close>-th request of a run, which
  may depend on the cursor the request carries.
\<close>

record product =
  product_offer_id :: string

record page =
  page_items :: "product list"
  page_total :: int
  page_last_id :: string

type_synonym server = "nat \<Rightarrow> string \<Rightarrow> error + page"

text \<open>
  \<^verbatim>\<open>
    while True:
        some_prod = get_product_list(last_id, client_id, seller_token)
        product_list.extend(some_prod.get("items"))
        total = some_prod.get("total")
        last_id = some_prod.get("last_id")
        if total == len(product_list):
            break
  \<close>
  The loop has no bound, so the model is a partial function: \<open>None\<close> is a run that never
  leaves the loop.
\<close>

partial_function (option) get_offer_ids_loop ::
  "server \<Rightarrow> nat \<Rightarrow> string \<Rightarrow> product list \<Rightarrow> (error + product list) option"
where
  "get_offer_ids_loop srv k last_id product_list =
     (case srv k last_id of
        Inl e \<Rightarrow> Some (Inl e)
      | Inr some_prod \<Rightarrow>
          (if page_total some_prod = int (length (product_list @ page_items some_prod))
           then Some (Inr (product_list @ page_items some_prod))
           else get_offer_ids_loop srv (Suc k) (page_last_id some_prod)
                  (product_list @ page_items some_prod)))"

definition get_offer_ids :: "server \<Rightarrow> (error + string list) option" where
  "get_offer_ids srv =
     (case get_offer_ids_loop srv 0 [] [] of
        None \<Rightarrow> None
      | Some (Inl e) \<Rightarrow> Some (Inl e)
      | Some (Inr product_list) \<Rightarrow> Some (Inr (map product_offer_id product_list)))"

text \<open>
  To state when the loop stops: the cursor and the accumulated products before the
  \<open>k\<close>-th request (when every earlier request succeeded), and whether the reply to the
  \<open>k\<close>-th request makes the accumulated count equal the total it reports.
\<close>

fun cursor_acc :: "server \<Rightarrow> nat \<Rightarrow> (string \<times> product list) option" where
  "cursor_acc srv 0 = Some ([], [])"
| "cursor_acc srv (Suc k) =
     (case cursor_acc srv k of
        None \<Rightarrow> None
      | Some (last_id, product_list) \<Rightarrow>
          (case srv k last_id of
             Inl e \<Rightarrow> None
           | Inr some_prod \<Rightarrow>
               Some (page_last_id some_prod, product_list @ page_items some_prod)))"

definition count_matches :: "server \<Rightarrow> nat \<Rightarrow> bool" where
  "count_matches srv k =
     (case cursor_acc srv k of
        None \<Rightarrow> False
      | Some (last_id, product_list) \<Rightarrow>
          (case srv k last_id of
             Inl e \<Rightarrow> False
           | Inr some_prod \<Rightarrow>
               page_total some_prod = int (length (product_list @ page_items some_prod))))"

text \<open>A marketplace with three products on two pages, used in the examples.\<close>

definition two_pages :: server where
  "two_pages k last_id =
     (if k = 0 \<and> last_id = [] then
        Inr \<lparr>page_items = [\<lparr>product_offer_id = ''A''\<rparr>, \<lparr>product_offer_id = ''B''\<rparr>],
             page_total = 3, page_last_id = ''c1''\<rparr>
      else if last_id = ''c1'' then
        Inr \<lparr>page_items = [\<lparr>product_offer_id = ''C''\<rparr>], page_total = 3, page_last_id = ''c2''\<rparr>
      else Inl HTTPError)"

section \<open>The drivers: \<^verbatim>\<open>upload_prices\<close>, \<^verbatim>\<open>upload_stocks\<close> and \<^verbatim>\<open>main\<close>\<close>

text \<open>
  \<^verbatim>\<open>update_stocks\<close> and \<^verbatim>\<open>update_price\<close> post one payload each and raise on an HTTP error
  status. The model keeps the log of the requests made; an \<open>endpoint\<close> says whether the
  \<open>k\<close>-th upload request of the run, with its payload, succeeds.
\<close>

datatype api_call = UpdateStocks "stock_entry list" | UpdatePrice "price_entry list"

type_synonym endpoint = "nat \<Rightarrow> api_call \<Rightarrow> bool"

text \<open>\<^verbatim>\<open>for some in list(divide(...)): update(some, ...)\<close>: the first failing request ends the loop.\<close>

fun upload_loop ::
  "endpoint \<Rightarrow> api_call list \<Rightarrow> api_call list \<Rightarrow> (error + unit) \<times> api_call list"
where
  "upload_loop ok [] log = (Inr (), log)"
| "upload_loop ok (c # cs) log =
     (if ok (length log) c then upload_loop ok cs (log @ [c])
      else (Inl HTTPError, log @ [c]))"

definition upload_prices ::
  "server \<Rightarrow> endpoint \<Rightarrow> watch list \<Rightarrow> ((error + price_entry list) \<times> api_call list) option"
where
  "upload_prices srv ok watch_remnants =
     (case get_offer_ids srv of
        None \<Rightarrow> None
      | Some (Inl e) \<Rightarrow> Some (Inl e, [])
      | Some (Inr offer_ids) \<Rightarrow>
          Some (case create_prices watch_remnants offer_ids of
                  (Inl e, _, _) \<Rightarrow> (Inl e, [])
                | (Inr prices, _, _) \<Rightarrow>
                    (case divide prices 1000 of
                       Inl e \<Rightarrow> (Inl e, [])
                     | Inr chunks \<Rightarrow>
                         (case upload_loop ok (map UpdatePrice chunks) [] of
                            (Inl e, log) \<Rightarrow> (Inl e, log)
                          | (Inr _, log) \<Rightarrow> (Inr prices, log)))))"

definition upload_stocks ::
  "server \<Rightarrow> endpoint \<Rightarrow> watch list \<Rightarrow>
     ((error + stock_entry list \<times> stock_entry list) \<times> api_call list) option"
where
  "upload_stocks srv ok watch_remnants =
     (case get_offer_ids srv of
        None \<Rightarrow> None
      | Some (Inl e) \<Rightarrow> Some (Inl e, [])
      | Some (Inr offer_ids) \<Rightarrow>
          Some (case create_stocks watch_remnants offer_ids of
                  (Inl e, _, _) \<Rightarrow> (Inl e, [])
                | (Inr stocks, _, _) \<Rightarrow>
                    (case divide stocks 100 of
                       Inl e \<Rightarrow> (Inl e, [])
                     | Inr chunks \<Rightarrow>
                         (case upload_loop ok (map UpdateStocks chunks) [] of
                            (Inl e, log) \<Rightarrow> (Inl e, log)
                          | (Inr _, log) \<Rightarrow>
                              (Inr (filter (\<lambda>st. stock st \<noteq> 0) stocks, stocks), log)))))"

text \<open>
  \<^verbatim>\<open>main\<close>: the ids are fetched once, the spreadsheet is downloaded (\<open>download\<close> is what
  \<^verbatim>\<open>download_stock\<close> returns or raises), and the same two lists go to \<^verbatim>\<open>create_stocks\<close> and
  then to \<^verbatim>\<open>create_prices\<close>. Every exception is caught and printed; the result is the
  exception caught, if any, and the log of upload requests.
\<close>

definition main ::
  "server \<Rightarrow> (error + watch list) \<Rightarrow> endpoint \<Rightarrow> (error option \<times> api_call list) option"
where
  "main srv download ok =
     (case get_offer_ids srv of
        None \<Rightarrow> None
      | Some (Inl e) \<Rightarrow> Some (Some e, [])
      | Some (Inr offer_ids) \<Rightarrow>
          Some (case download of
                  Inl e \<Rightarrow> (Some e, [])
                | Inr watch_remnants \<Rightarrow>
                    (case create_stocks watch_remnants offer_ids of
                       (Inl e, _, _) \<Rightarrow> (Some e, [])
                     | (Inr stocks, watch_remnants1, offer_ids1) \<Rightarrow>
                         (case divide stocks 100 of
                            Inl e \<Rightarrow> (Some e, [])
                          | Inr chunks \<Rightarrow>
                              (case upload_loop ok (map UpdateStocks chunks) [] of
                                 (Inl e, log) \<Rightarrow> (Some e, log)
                               | (Inr _, log) \<Rightarrow>
                                   (case create_prices watch_remnants1 offer_ids1 of
                                      (Inl e, _, _) \<Rightarrow> (Some e, log)
                                    | (Inr prices, _, _) \<Rightarrow>
                                        (case divide prices 900 of
                                           Inl e \<Rightarrow> (Some e, log)
                                         | Inr price_chunks \<Rightarrow>
                                             (case upload_loop ok (map UpdatePrice price_chunks) log of
                                                (Inl e, log') \<Rightarrow> (Some e, log')
                                              | (Inr _, log') \<Rightarrow> (None, log')))))))))"

text \<open>An endpoint that accepts every request, used in the examples.\<close>

definition always_ok :: endpoint where
  "always_ok k c = True"

text \<open>The batch limits of the two endpoints: 100 stock entries, 1000 price entries.\<close>

fun within_limit :: "api_call \<Rightarrow> bool" where
  "within_limit (UpdateStocks stocks) = (length stocks \<le> 100)"
| "within_limit (UpdatePrice prices) = (length prices \<le> 1000)"

section \<open>Properties of price normalisation\<close>

lemma split_not_Nil: "split sep s \<noteq> []"
  by (induction s) (auto split: list.splits)

lemma hd_split: "hd (split sep s) = takeWhile (\<lambda>c. c \<noteq> sep) s"
proof (induction s)
  case Nil
  show ?case by simp
next
  case (Cons c cs)
  then show ?case
    using split_not_Nil [of sep cs] by (auto split: list.splits)
qed

lemma is_digit_rub: "filter is_digit rub = []"
  by (simp add: rub_def is_digit_def digit_chars_def)

text \<open>
  C6. For every string, \<open>price_conversion\<close> returns normally, and its result is the part
  of the string before the first \<^verbatim>\<open>.\<close> (the whole string when there is none) with every
  character that is not a digit removed. The two examples of the docstring give
  \<^verbatim>\<open>5990\<close> and \<^verbatim>\<open>789\<close>.
\<close>

theorem price_conversion_spec:
  "price_conversion s = Inr (filter is_digit (takeWhile (\<lambda>c. c \<noteq> CHR ''.'') s))
   \<and> price_conversion price_5990 = Inr ''5990''
   \<and> price_conversion price_789 = Inr ''789''"
proof -
  have gen: "price_conversion t = Inr (filter is_digit (takeWhile (\<lambda>c. c \<noteq> CHR ''.'') t))"
    for t
    using hd_split [of "CHR ''.''" t] split_not_Nil [of "CHR ''.''" t]
    by (auto simp: price_conversion_def re_sub_non_digits_def split: list.splits)
  have a: "price_conversion price_5990 = Inr ''5990''"
    unfolding gen by (simp add: price_5990_def is_digit_rub) (simp add: is_digit_def digit_chars_def)
  have b: "price_conversion price_789 = Inr ''789''"
    unfolding gen by (simp add: price_789_def is_digit_rub) (simp add: is_digit_def digit_chars_def rub_def)
  from gen a b show ?thesis by blast
qed

section \<open>Properties of \<^verbatim>\<open>divide\<close>\<close>

lemma slice_nonneg:
  "0 \<le> i \<Longrightarrow> 0 \<le> n \<Longrightarrow> py_slice lst i (i + n) = take (nat n) (drop (nat i) lst)"
proof -
  assume i: "0 \<le> i" and n: "0 \<le> n"
  let ?L = "length lst"
  have ci: "clamp_index ?L i = min (nat i) ?L" using i by (simp add: clamp_index_def)
  have cj: "clamp_index ?L (i + n) = min (nat i + nat n) ?L"
    using i n by (simp add: clamp_index_def nat_add_distrib)
  show ?thesis
  proof (cases "nat i \<le> ?L")
    case True
    then have "py_slice lst i (i + n) = take (min (nat i + nat n) ?L - nat i) (drop (nat i) lst)"
      unfolding py_slice_def ci cj by (simp add: min_absorb1)
    also have "\<dots> = take (nat n) (drop (nat i) lst)"
      using True by (cases "nat i + nat n \<le> ?L") (simp_all add: min_def)
    finally show ?thesis .
  next
    case False
    then show ?thesis unfolding py_slice_def ci cj by simp
  qed
qed

lemma concat_slices:
  "0 \<le> i \<Longrightarrow> 0 < n \<Longrightarrow> stop = int (length lst) \<Longrightarrow>
   concat (map (\<lambda>i. py_slice lst i (i + n)) (py_range_up i stop n)) = drop (nat i) lst"
proof (induction i stop n rule: py_range_up.induct)
  case (1 i stop step)
  show ?case
  proof (cases "0 < step \<and> i < stop")
    case True
    have "nat (i + step) = nat step + nat i"
      using 1(2) True by (simp add: nat_add_distrib)
    then have d: "drop (nat (i + step)) lst = drop (nat step) (drop (nat i) lst)"
      by (simp only: drop_drop)
    have r: "py_range_up i stop step = i # py_range_up (i + step) stop step"
      using True by (subst py_range_up.simps) simp
    have IH: "concat (map (\<lambda>i. py_slice lst i (i + step)) (py_range_up (i + step) stop step))
              = drop (nat (i + step)) lst"
      using 1(1)[OF True] 1(2,3,4) True by simp
    have s: "py_slice lst i (i + step) = take (nat step) (drop (nat i) lst)"
      using slice_nonneg[of i step lst] 1(2) True by simp
    have "concat (map (\<lambda>i. py_slice lst i (i + step)) (py_range_up i stop step))
          = take (nat step) (drop (nat i) lst) @ drop (nat step) (drop (nat i) lst)"
      unfolding r by (simp only: list.map concat.simps IH s d)
    then show ?thesis by (simp only: append_take_drop_id)
  next
    case False
    then have r: "py_range_up i stop step = []" by (subst py_range_up.simps) simp
    from False 1(3,4) have "length lst \<le> nat i" by simp
    then show ?thesis unfolding r by simp
  qed
qed

lemma lengths_slices:
  "0 \<le> i \<Longrightarrow> 0 < n \<Longrightarrow> stop = int (length lst) \<Longrightarrow>
   cs = map (\<lambda>i. py_slice lst i (i + n)) (py_range_up i stop n) \<Longrightarrow>
   (\<forall>c \<in> set (butlast cs). length c = nat n) \<and>
   (cs \<noteq> [] \<longrightarrow> 0 < length (last cs) \<and> length (last cs) \<le> nat n)"
proof (induction i stop n arbitrary: cs rule: py_range_up.induct)
  case (1 i stop step)
  show ?case
  proof (cases "0 < step \<and> i < stop")
    case True
    define cs' where "cs' = map (\<lambda>i. py_slice lst i (i + step)) (py_range_up (i + step) stop step)"
    have r: "py_range_up i stop step = i # py_range_up (i + step) stop step"
      using True by (subst py_range_up.simps) simp
    have s: "py_slice lst i (i + step) = take (nat step) (drop (nat i) lst)"
      using slice_nonneg[of i step lst] 1(2) True by simp
    have cs: "cs = take (nat step) (drop (nat i) lst) # cs'"
      unfolding 1(5) r cs'_def by (simp only: list.map s)
    have IH: "(\<forall>c \<in> set (butlast cs'). length c = nat step) \<and>
      (cs' \<noteq> [] \<longrightarrow> 0 < length (last cs') \<and> length (last cs') \<le> nat step)"
      using 1(1)[OF True _ _ _ cs'_def] 1(2,3,4) True by simp
    show ?thesis
    proof (cases "cs' = []")
      case True
      have "nat i < length lst" "0 < nat step"
        using \<open>0 < step \<and> i < stop\<close> 1(2,4) by linarith+
      then have "0 < length (take (nat step) (drop (nat i) lst))"
        by simp
      with True cs show ?thesis by simp
    next
      case False
      then have "py_range_up (i + step) stop step \<noteq> []" unfolding cs'_def by simp
      then have "i + step < stop"
        by (subst (asm) py_range_up.simps) (simp split: if_splits)
      then have "length (take (nat step) (drop (nat i) lst)) = nat step"
        using 1(2,4) True by auto
      with False cs IH show ?thesis by simp
    qed
  next
    case False
    then have "py_range_up i stop step = []" by (subst py_range_up.simps) simp
    then have "cs = []" using 1(5) by simp
    then show ?thesis by simp
  qed
qed

text \<open>
  C7. For every list and every chunk size \<open>n \<ge> 1\<close>, \<open>divide\<close> returns a finite list of
  slices whose concatenation is the original list; every slice but the last has exactly
  \<open>n\<close> elements, and the last one has between 1 and \<open>n\<close>. Nine elements in chunks of
  three give three full slices; seven elements give two full slices and \<open>[7]\<close>.
\<close>

theorem divide_chunks:
  "(1 \<le> n \<longrightarrow>
     (\<exists>cs. divide lst n = Inr cs \<and> concat cs = lst
        \<and> (\<forall>c \<in> set (butlast cs). length c = nat n)
        \<and> (cs \<noteq> [] \<longrightarrow> 0 < length (last cs) \<and> length (last cs) \<le> nat n)))
   \<and> divide [1, 2, 3, 4, 5, 6, 7, 8, 9 :: int] 3 = Inr [[1, 2, 3], [4, 5, 6], [7, 8, 9]]
   \<and> divide [1, 2, 3, 4, 5, 6, 7 :: int] 3 = Inr [[1, 2, 3], [4, 5, 6], [7]]"
proof -
  have gen: "\<exists>cs. divide lst n = Inr cs \<and> concat cs = lst
        \<and> (\<forall>c \<in> set (butlast cs). length c = nat n)
        \<and> (cs \<noteq> [] \<longrightarrow> 0 < length (last cs) \<and> length (last cs) \<le> nat n)"
    if n: "1 \<le> n"
  proof -
    define cs where
      "cs = map (\<lambda>i. py_slice lst i (i + n)) (py_range_up 0 (int (length lst)) n)"
    have d: "divide lst n = Inr cs"
      using n by (simp add: divide_def py_range_def cs_def)
    have c: "concat cs = lst"
      using concat_slices[of 0 n "int (length lst)" lst] n by (simp add: cs_def)
    have l: "(\<forall>c \<in> set (butlast cs). length c = nat n) \<and>
       (cs \<noteq> [] \<longrightarrow> 0 < length (last cs) \<and> length (last cs) \<le> nat n)"
      using lengths_slices[of 0 n "int (length lst)" lst cs] n by (simp add: cs_def)
    from d c l show ?thesis by blast
  qed
  have ex9: "divide [1, 2, 3, 4, 5, 6, 7, 8, 9 :: int] 3 = Inr [[1, 2, 3], [4, 5, 6], [7, 8, 9]]"
    by (simp add: divide_def py_range_def py_slice_def clamp_index_def py_range_up.simps)
  have ex7: "divide [1, 2, 3, 4, 5, 6, 7 :: int] 3 = Inr [[1, 2, 3], [4, 5, 6], [7]]"
    by (simp add: divide_def py_range_def py_slice_def clamp_index_def py_range_up.simps)
  from gen ex9 ex7 show ?thesis by blast
qed

theorem divide_chunks_witness:
  "(1::int) \<le> 2 \<and>
   (\<exists>cs. divide [10, 20, 30 :: nat] 2 = Inr cs \<and> concat cs = [10, 20, 30]
      \<and> (\<forall>c \<in> set (butlast cs). length c = 2)
      \<and> (cs \<noteq> [] \<longrightarrow> 0 < length (last cs) \<and> length (last cs) \<le> 2))"
  using divide_chunks [of 2 "[10, 20, 30 :: nat]"] by simp

section \<open>Properties of the reconciler\<close>

lemma foldl_zero: "foldl (\<lambda>st i. st @ [\<lparr>offer_id = i, stock = 0\<rparr>]) acc ids = acc @ map zero_entry ids"
  by (induction ids arbitrary: acc) (simp_all add: zero_entry_def)

lemma loop_ids: "create_stocks_loop ws acc ids = (Inr out, ids') \<Longrightarrow> ids' = remaining ws ids"
  by (induction ws acc ids rule: create_stocks_loop.induct)
     (auto simp: Let_def split: if_splits sum.splits)

lemma loop_out:
  "create_stocks_loop ws acc ids = (Inr out, ids') \<Longrightarrow>
   \<exists>es. out = acc @ es \<and> list_all2 quantized (matched ws ids) es"
proof (induction ws arbitrary: acc ids)
  case Nil
  then show ?case by simp
next
  case (Cons w ws)
  show ?case
  proof (cases "py_str (Kod w) \<in> set ids")
    case False
    with Cons show ?thesis by simp
  next
    case True
    from Cons.prems True obtain st where
      st: "loop_stock_value (Kolichestvo w) = Inr st" and
      run: "create_stocks_loop ws (acc @ [\<lparr>offer_id = py_str (Kod w), stock = st\<rparr>])
              (remove1 (py_str (Kod w)) ids) = (Inr out, ids')"
      by (auto simp: Let_def loop_stock_value_def split: if_splits sum.splits)
    from Cons.IH [OF run] obtain es where
      es: "out = (acc @ [\<lparr>offer_id = py_str (Kod w), stock = st\<rparr>]) @ es"
          "list_all2 quantized (matched ws (remove1 (py_str (Kod w)) ids)) es"
      by blast
    have "quantized w \<lparr>offer_id = py_str (Kod w), stock = st\<rparr>"
      using st by (simp add: quantized_def)
    with es True show ?thesis
      by (intro exI [of _ "\<lparr>offer_id = py_str (Kod w), stock = st\<rparr> # es"]) simp
  qed
qed

lemma subseq_matched: "subseq (matched ws ids) ws"
  by (induction ws arbitrary: ids) auto

lemma set_remaining: "set (remaining ws ids) \<subseteq> set ids"
proof (induction ws arbitrary: ids)
  case Nil
  show ?case by simp
next
  case (Cons w ws)
  show ?case
  proof (cases "py_str (Kod w) \<in> set ids")
    case True
    have "set (remaining ws (remove1 (py_str (Kod w)) ids)) \<subseteq> set (remove1 (py_str (Kod w)) ids)"
      by (rule Cons.IH)
    also have "\<dots> \<subseteq> set ids" by (rule set_remove1_subset)
    finally show ?thesis using True by simp
  next
    case False
    then show ?thesis using Cons.IH [of ids] by simp
  qed
qed

lemma count_remaining:
  "i \<notin> (\<lambda>w. py_str (Kod w)) ` set ws \<Longrightarrow> count_list (remaining ws ids) i = count_list ids i"
proof (induction ws arbitrary: ids)
  case Nil
  show ?case by simp
next
  case (Cons w ws)
  then have ne: "py_str (Kod w) \<noteq> i" and rest: "i \<notin> (\<lambda>w. py_str (Kod w)) ` set ws" by auto
  have "count_list (remove1 (py_str (Kod w)) ids) i = count_list ids i"
    using ne by (induction ids) auto
  then show ?case using Cons.IH [OF rest] by simp
qed

lemma filter_eq_replicate: "filter (\<lambda>x. x = i) xs = replicate (count_list xs i) i"
  by (induction xs) auto

lemma remaining_distinct:
  "distinct ids \<Longrightarrow> w \<in> set ws \<Longrightarrow> py_str (Kod w) \<notin> set (remaining ws ids)"
proof (induction ws arbitrary: ids)
  case Nil
  then show ?case by simp
next
  case (Cons v vs)
  let ?c = "py_str (Kod v)"
  show ?case
  proof (cases "?c \<in> set ids")
    case True
    have d: "distinct (remove1 ?c ids)" using Cons.prems(1) by simp
    have out: "?c \<notin> set (remove1 ?c ids)" using Cons.prems(1) by simp
    show ?thesis
    proof (cases "w = v")
      case True
      with out set_remaining [of vs "remove1 ?c ids"] \<open>?c \<in> set ids\<close> show ?thesis by auto
    next
      case False
      with Cons.prems(2) have "w \<in> set vs" by simp
      from Cons.IH [OF d this] \<open>?c \<in> set ids\<close> show ?thesis by simp
    qed
  next
    case False
    show ?thesis
    proof (cases "w = v")
      case True
      with False set_remaining [of vs ids] show ?thesis by auto
    next
      case wv: False
      with Cons.prems(2) have "w \<in> set vs" by simp
      from Cons.IH [OF Cons.prems(1) this] False show ?thesis by simp
    qed
  qed
qed

lemma prices_no_match:
  "\<forall>w \<in> set ws. py_str (Kod w) \<notin> set ids \<Longrightarrow> create_prices_loop ws acc ids = Inr acc"
  by (induction ws) auto

lemma prices_ids:
  "create_prices_loop ws acc ids = Inr ps \<Longrightarrow>
   map price_offer_id ps = map price_offer_id acc @ filter (\<lambda>c. c \<in> set ids) (map (\<lambda>w. py_str (Kod w)) ws)"
proof (induction ws arbitrary: acc)
  case Nil
  then show ?case by simp
next
  case (Cons w ws)
  show ?case
  proof (cases "py_str (Kod w) \<in> set ids")
    case False
    with Cons show ?thesis by simp
  next
    case True
    from Cons.prems True obtain p where
      run: "create_prices_loop ws (acc @ [\<lparr>auto_action_enabled = ''UNKNOWN'', currency_code = ''RUB'',
                           price_offer_id = py_str (Kod w), old_price = ''0'', price = p\<rparr>]) ids = Inr ps"
      by (auto split: sum.splits)
    from Cons.IH [OF run] True show ?thesis by simp
  qed
qed

lemma stocks_filter:
  "set cur \<subseteq> S \<Longrightarrow>
   create_stocks_loop (filter (\<lambda>w. py_str (Kod w) \<in> S) ws) acc cur = create_stocks_loop ws acc cur"
proof (induction ws arbitrary: acc cur)
  case Nil
  show ?case by simp
next
  case (Cons w ws)
  have sub: "set (remove1 (py_str (Kod w)) cur) \<subseteq> S"
    using Cons.prems set_remove1_subset [of "py_str (Kod w)" cur] by blast
  show ?case
  proof (cases "py_str (Kod w) \<in> set cur")
    case True
    then have "py_str (Kod w) \<in> S" using Cons.prems by blast
    then show ?thesis using True Cons.IH [OF sub] by (simp add: Let_def split: sum.splits)
  next
    case False
    then show ?thesis using Cons.IH [OF Cons.prems] by simp
  qed
qed

lemma prices_filter:
  "create_prices_loop (filter (\<lambda>w. py_str (Kod w) \<in> set ids) ws) acc ids = create_prices_loop ws acc ids"
  by (induction ws arbitrary: acc) (simp_all split: sum.splits)

lemma matched_codes: "w \<in> set (matched ws ids) \<Longrightarrow> py_str (Kod w) \<in> set ids"
proof (induction ws arbitrary: ids)
  case Nil
  then show ?case by simp
next
  case (Cons v vs)
  show ?case
  proof (cases "py_str (Kod v) \<in> set ids")
    case True
    with Cons.prems have "w = v \<or> w \<in> set (matched vs (remove1 (py_str (Kod v)) ids))" by simp
    then show ?thesis
    proof
      assume "w = v" with True show ?thesis by simp
    next
      assume "w \<in> set (matched vs (remove1 (py_str (Kod v)) ids))"
      from Cons.IH [OF this] set_remove1_subset [of "py_str (Kod v)" ids] show ?thesis by blast
    qed
  next
    case False
    with Cons show ?thesis by simp
  qed
qed

lemma set_matched: "set (matched ws ids) \<subseteq> set ws"
  by (induction ws arbitrary: ids) auto

lemma quantized_ids: "list_all2 quantized ms es \<Longrightarrow> map offer_id es = map (\<lambda>w. py_str (Kod w)) ms"
  by (induction rule: list_all2_induct) (simp_all add: quantized_def)

lemma create_stocks_run:
  assumes "create_stocks ws ids = (Inr out, ws', ids')"
  shows "ws' = ws" and "ids' = remaining ws ids"
    and "\<exists>es. out = es @ map zero_entry (remaining ws ids) \<and> list_all2 quantized (matched ws ids) es"
proof -
  from assms obtain st where
    loop: "create_stocks_loop ws [] ids = (Inr st, ids')" and
    out: "out = foldl (\<lambda>st i. st @ [\<lparr>offer_id = i, stock = 0\<rparr>]) st ids'" and
    ws: "ws' = ws"
    by (auto simp: create_stocks_def split: prod.splits sum.splits)
  show "ws' = ws" by (rule ws)
  show ids: "ids' = remaining ws ids" using loop by (rule loop_ids)
  from loop_out [OF loop] obtain es where "st = es" "list_all2 quantized (matched ws ids) es"
    by auto
  then show "\<exists>es. out = es @ map zero_entry (remaining ws ids) \<and> list_all2 quantized (matched ws ids) es"
    using out ids by (auto simp: foldl_zero)
qed

lemma distinct_count_one: "distinct xs \<Longrightarrow> x \<in> set xs \<Longrightarrow> count_list xs x = 1"
  by (induction xs) auto

lemma filter_zero_entries:
  "filter (\<lambda>e. offer_id e = i) (map zero_entry xs) = replicate (count_list xs i) (zero_entry i)"
  by (induction xs) (auto simp: zero_entry_def)

text \<open>
  C3 (as amended). When \<open>create_stocks\<close> returns a list, that list is the entries of the
  matched records, in the order of the records, followed by a zero entry for every id left
  in the offer-id list. A known id that is the code of no record appears, always as the
  entry with stock 0, as many times as it occurs in the offer-id list: exactly once when
  the list has no duplicates.
\<close>

theorem create_stocks_unmatched:
  assumes run: "create_stocks ws ids = (Inr out, ws', ids')"
      and unmatched: "i \<notin> (\<lambda>w. py_str (Kod w)) ` set ws"
  shows "(\<exists>es. out = es @ map zero_entry (remaining ws ids)
            \<and> map offer_id es = map (\<lambda>w. py_str (Kod w)) (matched ws ids))
       \<and> subseq (matched ws ids) ws
       \<and> filter (\<lambda>e. offer_id e = i) out = replicate (count_list ids i) (zero_entry i)
       \<and> (distinct ids \<and> i \<in> set ids \<longrightarrow> filter (\<lambda>e. offer_id e = i) out = [zero_entry i])"
proof -
  from create_stocks_run(3) [OF run] obtain es where
    out: "out = es @ map zero_entry (remaining ws ids)" and
    q: "list_all2 quantized (matched ws ids) es"
    by blast
  have ids: "map offer_id es = map (\<lambda>w. py_str (Kod w)) (matched ws ids)"
    using q by (rule quantized_ids)
  have "i \<notin> set (map offer_id es)"
    using unmatched set_matched [of ws ids] unfolding ids by auto
  then have none: "filter (\<lambda>e. offer_id e = i) es = []"
    by (auto simp: filter_empty_conv)
  have f: "filter (\<lambda>e. offer_id e = i) out = replicate (count_list ids i) (zero_entry i)"
    unfolding out using none count_remaining [OF unmatched, of ids]
    by (simp add: filter_zero_entries)
  have one: "filter (\<lambda>e. offer_id e = i) out = [zero_entry i]" if "distinct ids" "i \<in> set ids"
    using f distinct_count_one [OF that] by simp
  from out ids subseq_matched [of ws ids] f one show ?thesis by blast
qed

theorem create_stocks_unmatched_witness:
  "create_stocks rows_AB [''A'', ''B'', ''C'']
     = (Inr [\<lparr>offer_id = ''A'', stock = 100\<rparr>, \<lparr>offer_id = ''B'', stock = 0\<rparr>,
             \<lparr>offer_id = ''C'', stock = 0\<rparr>], rows_AB, [''C''])
   \<and> ''C'' \<notin> (\<lambda>w. py_str (Kod w)) ` set rows_AB
   \<and> distinct [''A'', ''B'', ''C''] \<and> ''C'' \<in> set [''A'', ''B'', ''C'']
   \<and> filter (\<lambda>e. offer_id e = ''C'')
        [\<lparr>offer_id = ''A'', stock = 100\<rparr>, \<lparr>offer_id = ''B'', stock = 0\<rparr>,
         \<lparr>offer_id = ''C'', stock = 0\<rparr>] = [zero_entry ''C'']"
proof -
  have run: "create_stocks rows_AB [''A'', ''B'', ''C'']
     = (Inr [\<lparr>offer_id = ''A'', stock = 100\<rparr>, \<lparr>offer_id = ''B'', stock = 0\<rparr>,
             \<lparr>offer_id = ''C'', stock = 0\<rparr>], rows_AB, [''C''])"
    by (simp add: create_stocks_def rows_AB_def row_def)
  have un: "''C'' \<notin> (\<lambda>w. py_str (Kod w)) ` set rows_AB"
    by (simp add: rows_AB_def row_def)
  from create_stocks_unmatched [OF run un] run un show ?thesis
    by (simp add: zero_entry_def)
qed

text \<open>
  An id listed twice and matched by no record is given two zero entries, not one.
\<close>

theorem create_stocks_duplicate_ids:
  "create_stocks [] [''C'', ''C'']
     = (Inr [\<lparr>offer_id = ''C'', stock = 0\<rparr>, \<lparr>offer_id = ''C'', stock = 0\<rparr>], [], [''C'', ''C''])
   \<and> count_list (map offer_id [\<lparr>offer_id = ''C'', stock = 0\<rparr>, \<lparr>offer_id = ''C'', stock = 0\<rparr>]) ''C'' = 2"
  by (simp add: create_stocks_def)

lemma is_digit_cases:
  "is_digit c \<Longrightarrow> \<not> is_space c \<and> (of_char c :: nat) < 128 \<and> c \<noteq> CHR ''_''
     \<and> c \<noteq> CHR ''-'' \<and> c \<noteq> CHR ''+''"
  by (auto simp: is_digit_def digit_chars_def is_space_def)

lemma digits_from_pos_value:
  "list_all is_digit ds \<Longrightarrow> digits_from acc ds = Some (acc * 10 ^ length ds + pos_value ds)"
proof (induction ds arbitrary: acc)
  case Nil
  show ?case by simp
next
  case (Cons c cs)
  then have c: "is_digit c" and cs: "list_all is_digit cs" by simp_all
  show ?case using c Cons.IH [OF cs, of "10 * acc + digit_val c"]
    by (simp add: algebra_simps)
qed

lemma nat_of_digits_pos_value:
  "ds \<noteq> [] \<Longrightarrow> list_all is_digit ds \<Longrightarrow> nat_of_digits ds = Some (pos_value ds)"
  by (cases ds) (simp_all add: nat_of_digits_def digits_from_pos_value)

lemma strip_id:
  assumes "s \<noteq> []" and "\<not> is_space (hd s)" and "\<not> is_space (last s)"
  shows "strip s = s"
proof -
  have a: "dropWhile is_space s = s" using assms(1,2) by (cases s) simp_all
  have "rev s \<noteq> []" "\<not> is_space (hd (rev s))"
    using assms(1,3) by (simp_all add: hd_rev)
  then have "dropWhile is_space (rev s) = rev s" by (cases "rev s") simp_all
  then show ?thesis by (simp add: strip_def a)
qed

lemma parse_long_unsigned:
  "strip s = c # cs \<Longrightarrow> c \<noteq> CHR ''-'' \<Longrightarrow> c \<noteq> CHR ''+'' \<Longrightarrow>
   length (filter is_digit (c # cs)) \<le> max_str_digits \<Longrightarrow>
   nat_of_digits (c # cs) = Some n \<Longrightarrow> parse_long s = Inr (int n)"
  by (simp add: parse_long_def Let_def)

lemma parse_long_signed:
  "strip s = c # cs \<Longrightarrow> c = CHR ''-'' \<or> c = CHR ''+'' \<Longrightarrow>
   length (filter is_digit cs) \<le> max_str_digits \<Longrightarrow>
   nat_of_digits cs = Some n \<Longrightarrow>
   parse_long s = Inr (if c = CHR ''-'' then - int n else int n)"
  by (auto simp: parse_long_def Let_def)

lemma parse_long_digits:
  assumes "digits_value ds = Some n"
  shows "parse_long ds = Inr (int n)"
    and "parse_long (CHR ''-'' # ds) = Inr (- int n)"
    and "parse_long (CHR ''+'' # ds) = Inr (int n)"
proof -
  from assms have ne: "ds \<noteq> []" and dig: "list_all is_digit ds"
    and len: "length ds \<le> 4300" and n: "n = pos_value ds"
    by (auto simp: digits_value_def split: if_splits)
  have hd: "is_digit (hd ds)" and lst: "is_digit (last ds)"
    using ne dig by (auto simp: list_all_iff)
  have "filter is_digit ds = ds" using dig by (simp add: list_all_iff)
  then have cnt: "length (filter is_digit ds) \<le> max_str_digits"
    using len by (simp add: max_str_digits_def)
  have nd: "nat_of_digits ds = Some n"
    using nat_of_digits_pos_value [OF ne dig] n by simp
  have s0: "strip ds = ds"
    using ne hd lst is_digit_cases by (intro strip_id) auto
  have s1: "strip (c # ds) = c # ds" if "\<not> is_space c" for c
    using ne lst is_digit_cases that by (intro strip_id) auto
  obtain d ds' where ds: "ds = d # ds'" using ne by (cases ds) auto
  with hd have dd: "d \<noteq> CHR ''-''" "d \<noteq> CHR ''+''" using is_digit_cases by auto
  show "parse_long ds = Inr (int n)"
    using parse_long_unsigned [of ds d ds' n] s0 dd cnt nd unfolding ds by blast
  have sp: "\<not> is_space (CHR ''-'')" "\<not> is_space (CHR ''+'')" by (simp_all add: is_space_def)
  show "parse_long (CHR ''-'' # ds) = Inr (- int n)"
    using parse_long_signed [OF s1 [OF sp(1)] _ cnt nd] by simp
  show "parse_long (CHR ''+'' # ds) = Inr (int n)"
    using parse_long_signed [OF s1 [OF sp(2)] _ cnt nd] by simp
qed

lemma digits_value_ascii: "digits_value ds = Some n \<Longrightarrow> is_ascii ds"
  using is_digit_cases by (auto simp: digits_value_def is_ascii_def list_all_iff split: if_splits)

lemma literal_value_int_of_str:
  assumes "literal_value s = Some v"
  shows "int_of_str s = Inr v"
proof -
  from assms obtain c cs where s: "s = c # cs" by (cases s) (auto simp: literal_value_def)
  show ?thesis
  proof (cases "c = CHR ''-''")
    case True
    with assms s obtain n where n: "digits_value cs = Some n" and v: "v = - int n"
      by (auto simp: literal_value_def)
    have "is_ascii s" using digits_value_ascii [OF n] True s by (simp add: is_ascii_def)
    then show ?thesis using parse_long_digits(2) [OF n] True s v by (simp add: int_of_str_def)
  next
    case False
    show ?thesis
    proof (cases "c = CHR ''+''")
      case True
      with assms s obtain n where n: "digits_value cs = Some n" and v: "v = int n"
        by (auto simp: literal_value_def)
      have "is_ascii s" using digits_value_ascii [OF n] True s by (simp add: is_ascii_def)
      then show ?thesis using parse_long_digits(3) [OF n] True s v by (simp add: int_of_str_def)
    next
      case plus: False
      with assms s False obtain n where n: "digits_value s = Some n" and v: "v = int n"
        by (auto simp: literal_value_def)
      then show ?thesis
        using parse_long_digits(1) [OF n] digits_value_ascii [OF n] by (simp add: int_of_str_def)
    qed
  qed
qed

lemma quantized_quantization: "quantized w e \<Longrightarrow> quantization w e"
proof -
  assume q: "quantized w e"
  then have id: "offer_id e = py_str (Kod w)"
    and lv: "loop_stock_value (Kolichestvo w) = Inr (stock e)"
    by (simp_all add: quantized_def)
  show ?thesis
  proof (cases "py_str (Kolichestvo w) = ''>10'' \<or> py_str (Kolichestvo w) = ''1''")
    case True
    with lv id show ?thesis
      by (auto simp: quantization_def spec_stock_value_def loop_stock_value_def)
  next
    case False
    with lv have pi: "py_int (Kolichestvo w) = Inr (stock e)"
      by (simp add: loop_stock_value_def)
    show ?thesis
    proof (cases "Kolichestvo w")
      case (PyStr s)
      show ?thesis
      proof (cases "literal_value s")
        case None
        with False PyStr pi id show ?thesis
          by (simp add: quantization_def spec_stock_value_def)
      next
        case (Some v)
        from literal_value_int_of_str [OF Some] pi PyStr have "stock e = v" by simp
        with False PyStr Some id show ?thesis
          by (simp add: quantization_def spec_stock_value_def)
      qed
    next
      case (PyInt i)
      with False pi id show ?thesis by (simp add: quantization_def spec_stock_value_def)
    next
      case PyNone
      with pi show ?thesis by simp
    qed
  qed
qed

text \<open>
  C5 (as amended). When \<open>create_stocks\<close> returns a list, its first entries are those of
  the records that match when they are processed, one each and in order; a later record
  whose code an earlier record has consumed gets no entry. The stock of each entry is the
  value the specification gives to the record's quantity: 100 for \<^verbatim>\<open>>10\<close>, 0 for \<^verbatim>\<open>1\<close>, the
  integer itself for an integer cell, and for a decimal literal the integer it denotes.
  For any other quantity it is what \<^verbatim>\<open>int\<close> returns.
\<close>

theorem create_stocks_quantization:
  assumes run: "create_stocks ws ids = (Inr out, ws', ids')"
  shows "list_all2 quantization (matched ws ids) (take (length (matched ws ids)) out)"
proof -
  from create_stocks_run(3) [OF run] obtain es where
    out: "out = es @ map zero_entry (remaining ws ids)" and
    q: "list_all2 quantized (matched ws ids) es"
    by blast
  from q have "length (matched ws ids) = length es" by (rule list_all2_lengthD)
  moreover from q have "list_all2 quantization (matched ws ids) es"
    by (rule list_all2_mono) (rule quantized_quantization)
  ultimately show ?thesis using out by simp
qed

theorem create_stocks_quantization_witness:
  "create_stocks rows_quantities [''A'', ''B'', ''F'', ''42'', ''G'', ''E'']
     = (Inr [\<lparr>offer_id = ''A'', stock = 100\<rparr>, \<lparr>offer_id = ''B'', stock = 0\<rparr>,
             \<lparr>offer_id = ''F'', stock = 250\<rparr>, \<lparr>offer_id = ''42'', stock = 25\<rparr>,
             \<lparr>offer_id = ''G'', stock = 3\<rparr>, \<lparr>offer_id = ''E'', stock = 0\<rparr>],
        rows_quantities, [''E''])
   \<and> spec_stock_value (PyStr ''250'') = Some 250
   \<and> spec_stock_value (PyStr '' 25 '') = None
   \<and> list_all2 quantization (matched rows_quantities [''A'', ''B'', ''F'', ''42'', ''G'', ''E''])
        [\<lparr>offer_id = ''A'', stock = 100\<rparr>, \<lparr>offer_id = ''B'', stock = 0\<rparr>,
         \<lparr>offer_id = ''F'', stock = 250\<rparr>, \<lparr>offer_id = ''42'', stock = 25\<rparr>,
         \<lparr>offer_id = ''G'', stock = 3\<rparr>]"
proof -
  have p25: "int_of_str '' 25 '' = Inr 25"
    by (simp add: int_of_str_def is_ascii_def parse_long_def strip_def is_space_def
          nat_of_digits_def is_digit_def digit_chars_def digit_val_def max_str_digits_def)
  have p250: "int_of_str ''250'' = Inr 250"
    by (simp add: int_of_str_def is_ascii_def parse_long_def strip_def is_space_def
          nat_of_digits_def is_digit_def digit_chars_def digit_val_def max_str_digits_def)
  have run: "create_stocks rows_quantities [''A'', ''B'', ''F'', ''42'', ''G'', ''E'']
     = (Inr [\<lparr>offer_id = ''A'', stock = 100\<rparr>, \<lparr>offer_id = ''B'', stock = 0\<rparr>,
             \<lparr>offer_id = ''F'', stock = 250\<rparr>, \<lparr>offer_id = ''42'', stock = 25\<rparr>,
             \<lparr>offer_id = ''G'', stock = 3\<rparr>, \<lparr>offer_id = ''E'', stock = 0\<rparr>],
        rows_quantities, [''E''])"
    by (simp add: create_stocks_def rows_quantities_def row_def str_of_int_def digit_chars_def
          p25 p250)
  have m: "length (matched rows_quantities [''A'', ''B'', ''F'', ''42'', ''G'', ''E'']) = 5"
    by (simp add: rows_quantities_def row_def str_of_int_def digit_chars_def)
  have a: "spec_stock_value (PyStr ''250'') = Some 250"
    by (simp add: spec_stock_value_def literal_value_def digits_value_def is_digit_def
          digit_chars_def digit_val_def)
  have b: "spec_stock_value (PyStr '' 25 '') = None"
    by (simp add: spec_stock_value_def literal_value_def digits_value_def is_digit_def
          digit_chars_def)
  from create_stocks_quantization [OF run] run a b show ?thesis unfolding m by simp
qed

text \<open>
  Two records with the code \<^verbatim>\<open>A\<close> and one id \<^verbatim>\<open>A\<close>: the first record consumes the id, and the
  second, whose quantity is \<^verbatim>\<open>>10\<close>, gets no entry.
\<close>

theorem create_stocks_repeated_code:
  "create_stocks [row ''A'' ''5'' ''1.00'', row ''A'' ''>10'' ''1.00''] [''A'']
     = (Inr [\<lparr>offer_id = ''A'', stock = 5\<rparr>],
        [row ''A'' ''5'' ''1.00'', row ''A'' ''>10'' ''1.00''], [])"
  by (simp add: create_stocks_def row_def int_of_str_def is_ascii_def parse_long_def strip_def
        is_space_def nat_of_digits_def is_digit_def digit_chars_def digit_val_def
        max_str_digits_def)

lemma create_stocks_filter:
  "fst (create_stocks (filter (\<lambda>w. py_str (Kod w) \<in> set ids) ws) ids) = fst (create_stocks ws ids)"
  using stocks_filter [of ids "set ids" ws "[]"]
  by (simp add: create_stocks_def split: prod.splits sum.splits)

text \<open>
  C4 (as amended). Records whose code is not a known offer id can be deleted from the
  input without changing what \<open>create_stocks\<close> or \<open>create_prices\<close> returns, and neither
  output has an entry whose id is not a known offer id. \<open>create_prices\<close> emits one entry
  for every record whose code is known, in record order: at most one per id when no two
  records share a code.
\<close>

theorem unknown_records_ignored:
  "fst (create_stocks (filter (\<lambda>w. py_str (Kod w) \<in> set ids) ws) ids) = fst (create_stocks ws ids)
   \<and> fst (create_prices (filter (\<lambda>w. py_str (Kod w) \<in> set ids) ws) ids) = fst (create_prices ws ids)
   \<and> (fst (create_stocks ws ids) = Inr out \<longrightarrow> set (map offer_id out) \<subseteq> set ids)
   \<and> (fst (create_prices ws ids) = Inr ps \<longrightarrow>
        map price_offer_id ps = filter (\<lambda>c. c \<in> set ids) (map (\<lambda>w. py_str (Kod w)) ws)
        \<and> set (map price_offer_id ps) \<subseteq> set ids
        \<and> (distinct (map (\<lambda>w. py_str (Kod w)) ws) \<longrightarrow> distinct (map price_offer_id ps)))"
proof -
  have a: "fst (create_stocks (filter (\<lambda>w. py_str (Kod w) \<in> set ids) ws) ids) = fst (create_stocks ws ids)"
    by (rule create_stocks_filter)
  have b: "fst (create_prices (filter (\<lambda>w. py_str (Kod w) \<in> set ids) ws) ids) = fst (create_prices ws ids)"
    by (simp add: create_prices_def prices_filter)
  have c: "set (map offer_id out) \<subseteq> set ids" if "fst (create_stocks ws ids) = Inr out"
  proof -
    from that obtain ws' ids' where run: "create_stocks ws ids = (Inr out, ws', ids')"
      by (cases "create_stocks ws ids") auto
    from create_stocks_run(3) [OF run] obtain es where
      out: "out = es @ map zero_entry (remaining ws ids)" and
      q: "list_all2 quantized (matched ws ids) es"
      by blast
    have "set (map offer_id es) \<subseteq> set ids"
      unfolding quantized_ids [OF q] using matched_codes [of _ ws ids] by auto
    moreover have "set (map offer_id (map zero_entry (remaining ws ids))) \<subseteq> set ids"
      using set_remaining [of ws ids] by (auto simp: zero_entry_def)
    ultimately show ?thesis unfolding out by simp
  qed
  have d: "map price_offer_id ps = filter (\<lambda>c. c \<in> set ids) (map (\<lambda>w. py_str (Kod w)) ws)
        \<and> set (map price_offer_id ps) \<subseteq> set ids
        \<and> (distinct (map (\<lambda>w. py_str (Kod w)) ws) \<longrightarrow> distinct (map price_offer_id ps))"
    if "fst (create_prices ws ids) = Inr ps"
  proof -
    from that have "create_prices_loop ws [] ids = Inr ps" by (simp add: create_prices_def)
    from prices_ids [OF this]
    have m: "map price_offer_id ps = filter (\<lambda>c. c \<in> set ids) (map (\<lambda>w. py_str (Kod w)) ws)"
      by simp
    show ?thesis unfolding m by auto
  qed
  from a b c d show ?thesis by blast
qed

lemma pc_5990: "price_conversion ''5990.00'' = Inr ''5990''"
  by (simp add: price_conversion_def re_sub_non_digits_def is_digit_def digit_chars_def)

lemma pc_789: "price_conversion ''789'' = Inr ''789''"
  by (simp add: price_conversion_def re_sub_non_digits_def is_digit_def digit_chars_def)

theorem unknown_records_ignored_witness:
  "fst (create_stocks rows_AXB [''A'', ''B'', ''C''])
     = Inr [\<lparr>offer_id = ''A'', stock = 100\<rparr>, \<lparr>offer_id = ''B'', stock = 0\<rparr>,
            \<lparr>offer_id = ''C'', stock = 0\<rparr>]
   \<and> fst (create_prices rows_AXB [''A'', ''B'', ''C''])
     = Inr [price_of ''A'' ''5990'', price_of ''B'' ''789'']
   \<and> distinct (map (\<lambda>w. py_str (Kod w)) rows_AXB)
   \<and> set (map offer_id [\<lparr>offer_id = ''A'', stock = 100\<rparr>, \<lparr>offer_id = ''B'', stock = 0\<rparr>,
            \<lparr>offer_id = ''C'', stock = 0\<rparr>]) \<subseteq> set [''A'', ''B'', ''C'']
   \<and> map price_offer_id [price_of ''A'' ''5990'', price_of ''B'' ''789'']
       = filter (\<lambda>c. c \<in> set [''A'', ''B'', ''C'']) (map (\<lambda>w. py_str (Kod w)) rows_AXB)
   \<and> distinct (map price_offer_id [price_of ''A'' ''5990'', price_of ''B'' ''789''])"
proof -
  have s: "fst (create_stocks rows_AXB [''A'', ''B'', ''C''])
     = Inr [\<lparr>offer_id = ''A'', stock = 100\<rparr>, \<lparr>offer_id = ''B'', stock = 0\<rparr>,
            \<lparr>offer_id = ''C'', stock = 0\<rparr>]"
    by (simp add: create_stocks_def rows_AXB_def row_def)
  have p: "fst (create_prices rows_AXB [''A'', ''B'', ''C''])
     = Inr [price_of ''A'' ''5990'', price_of ''B'' ''789'']"
    by (simp add: create_prices_def rows_AXB_def row_def pc_5990 pc_789 price_of_def)
  have d: "distinct (map (\<lambda>w. py_str (Kod w)) rows_AXB)"
    by (simp add: rows_AXB_def row_def)
  from unknown_records_ignored [of "[''A'', ''B'', ''C'']" rows_AXB
      "[\<lparr>offer_id = ''A'', stock = 100\<rparr>, \<lparr>offer_id = ''B'', stock = 0\<rparr>,
            \<lparr>offer_id = ''C'', stock = 0\<rparr>]" "[price_of ''A'' ''5990'', price_of ''B'' ''789'']"]
    s p d
  show ?thesis by (simp add: price_of_def)
qed

text \<open>
  Two records with the same known code give two price entries for that id.
\<close>

theorem create_prices_duplicate_codes:
  "fst (create_prices [row ''A'' ''>10'' ''5990.00'', row ''A'' ''2'' ''789''] [''A''])
     = Inr [price_of ''A'' ''5990'', price_of ''A'' ''789'']
   \<and> count_list (map price_offer_id [price_of ''A'' ''5990'', price_of ''A'' ''789'']) ''A'' = 2"
  by (simp add: create_prices_def row_def pc_5990 pc_789 price_of_def)

text \<open>
  C2 (as amended). When the offer-id list has no duplicates and \<open>create_stocks\<close> returns
  normally, \<open>create_prices\<close> called next on the same two lists, as \<^verbatim>\<open>main\<close> calls it,
  returns the empty price list.
\<close>

theorem main_sequence_no_prices:
  assumes d: "distinct ids" and run: "create_stocks ws ids = (Inr stocks, ws', ids')"
  shows "create_prices ws' ids' = (Inr [], ws', ids') \<and> reconciler ws ids = Inr (stocks, [])"
proof -
  have ws: "ws' = ws" and ids: "ids' = remaining ws ids"
    using create_stocks_run(1,2) [OF run] by simp_all
  have "\<forall>w \<in> set ws. py_str (Kod w) \<notin> set (remaining ws ids)"
    using remaining_distinct [OF d] by blast
  then have "create_prices_loop ws [] (remaining ws ids) = Inr []"
    by (rule prices_no_match)
  then have p: "create_prices ws' ids' = (Inr [], ws', ids')"
    by (simp add: create_prices_def ws ids)
  then show ?thesis by (simp add: reconciler_def run)
qed

theorem main_sequence_no_prices_witness:
  "distinct [''A'', ''B'', ''C'']
   \<and> create_stocks rows_AXB [''A'', ''B'', ''C'']
      = (Inr [\<lparr>offer_id = ''A'', stock = 100\<rparr>, \<lparr>offer_id = ''B'', stock = 0\<rparr>,
              \<lparr>offer_id = ''C'', stock = 0\<rparr>], rows_AXB, [''C''])
   \<and> create_prices rows_AXB [''C''] = (Inr [], rows_AXB, [''C''])
   \<and> reconciler rows_AXB [''A'', ''B'', ''C'']
      = Inr ([\<lparr>offer_id = ''A'', stock = 100\<rparr>, \<lparr>offer_id = ''B'', stock = 0\<rparr>,
              \<lparr>offer_id = ''C'', stock = 0\<rparr>], [])"
proof -
  have d: "distinct [''A'', ''B'', ''C'']" by simp
  have run: "create_stocks rows_AXB [''A'', ''B'', ''C'']
      = (Inr [\<lparr>offer_id = ''A'', stock = 100\<rparr>, \<lparr>offer_id = ''B'', stock = 0\<rparr>,
              \<lparr>offer_id = ''C'', stock = 0\<rparr>], rows_AXB, [''C''])"
    by (simp add: create_stocks_def rows_AXB_def row_def)
  from main_sequence_no_prices [OF d run] d run show ?thesis by simp
qed

text \<open>
  With an id listed twice, one occurrence survives \<open>create_stocks\<close> and the record matches
  again in \<open>create_prices\<close>: the price list is not empty.
\<close>

theorem main_sequence_duplicate_ids:
  "reconciler [row ''A'' ''>10'' ''5990.00''] [''A'', ''A'']
     = Inr ([\<lparr>offer_id = ''A'', stock = 100\<rparr>, \<lparr>offer_id = ''A'', stock = 0\<rparr>],
            [price_of ''A'' ''5990''])"
  by (simp add: reconciler_def create_stocks_def create_prices_def row_def pc_5990 price_of_def)

text \<open>
  C1. \<open>create_stocks\<close> does not leave its second argument unchanged: called with the one
  record \<^verbatim>\<open>A\<close> and the list \<^verbatim>\<open>["A"]\<close>, it returns with the list empty. \<open>create_prices\<close>
  on the original list gives the price entry of \<^verbatim>\<open>A\<close>; on the list \<open>create_stocks\<close>
  leaves behind it gives none.
\<close>

theorem create_stocks_consumes_offer_ids:
  "create_stocks [row ''A'' ''>10'' ''5990.00''] [''A'']
     = (Inr [\<lparr>offer_id = ''A'', stock = 100\<rparr>], [row ''A'' ''>10'' ''5990.00''], [])
   \<and> create_prices [row ''A'' ''>10'' ''5990.00''] [''A'']
     = (Inr [price_of ''A'' ''5990''], [row ''A'' ''>10'' ''5990.00''], [''A''])
   \<and> create_prices [row ''A'' ''>10'' ''5990.00''] []
     = (Inr [], [row ''A'' ''>10'' ''5990.00''], [])"
  by (simp add: create_stocks_def create_prices_def row_def pc_5990 price_of_def)


section \<open>Termination of the pagination fetcher\<close>

lemma cursor_acc_earlier:
  "cursor_acc srv m = Some st \<Longrightarrow> j \<le> m \<Longrightarrow> \<exists>st'. cursor_acc srv j = Some st'"
proof (induction m arbitrary: st)
  case 0
  then show ?case by simp
next
  case (Suc m)
  show ?case
  proof (cases "j = Suc m")
    case True
    with Suc.prems show ?thesis by simp
  next
    case False
    with Suc.prems have j: "j \<le> m" by simp
    from Suc.prems(1) obtain st0 where "cursor_acc srv m = Some st0"
      by (auto split: option.splits)
    from Suc.IH [OF this j] show ?thesis .
  qed
qed

lemma count_matches_cursor: "count_matches srv m \<Longrightarrow> \<exists>st. cursor_acc srv m = Some st"
  by (auto simp: count_matches_def split: option.splits)

lemma loop_halts:
  assumes "cursor_acc srv k = Some (lid, pl)" and "k \<le> m" and "count_matches srv m"
      and "\<And>j. k \<le> j \<Longrightarrow> j < m \<Longrightarrow> \<not> count_matches srv j"
  shows "\<exists>lid' pl'. cursor_acc srv (Suc m) = Some (lid', pl')
           \<and> get_offer_ids_loop srv k lid pl = Some (Inr pl')"
  using assms
proof (induction "m - k" arbitrary: k lid pl)
  case 0
  then have km: "k = m" by simp
  from 0(4) 0(2) km obtain p where
    p: "srv m lid = Inr p" and t: "page_total p = int (length (pl @ page_items p))"
    by (auto simp: count_matches_def split: sum.splits)
  have "cursor_acc srv (Suc m) = Some (page_last_id p, pl @ page_items p)"
    using 0(2) km p by simp
  moreover have "get_offer_ids_loop srv k lid pl = Some (Inr (pl @ page_items p))"
    using p t km by (subst get_offer_ids_loop.simps) simp
  ultimately show ?case by blast
next
  case (Suc d)
  then have lt: "k < m" by simp
  from count_matches_cursor [OF Suc.prems(3)] obtain st where "cursor_acc srv m = Some st" ..
  from cursor_acc_earlier [OF this, of "Suc k"] lt obtain st' where
    st': "cursor_acc srv (Suc k) = Some st'" by auto
  with Suc.prems(1) obtain p where
    p: "srv k lid = Inr p" and nxt: "cursor_acc srv (Suc k) = Some (page_last_id p, pl @ page_items p)"
    by (auto split: sum.splits)
  have "\<not> count_matches srv k" using Suc.prems(4) [of k] lt by simp
  then have t: "page_total p \<noteq> int (length (pl @ page_items p))"
    using Suc.prems(1) p by (simp add: count_matches_def)
  have d: "d = m - Suc k" using Suc.hyps(2) by simp
  have "\<exists>lid' pl'. cursor_acc srv (Suc m) = Some (lid', pl')
           \<and> get_offer_ids_loop srv (Suc k) (page_last_id p) (pl @ page_items p) = Some (Inr pl')"
    using Suc.hyps(1) [OF d nxt _ Suc.prems(3)] Suc.prems(4) lt by simp
  moreover have "get_offer_ids_loop srv k lid pl
      = get_offer_ids_loop srv (Suc k) (page_last_id p) (pl @ page_items p)"
    using p t by (subst get_offer_ids_loop.simps) simp
  ultimately show ?case by simp
qed

text \<open>
  C10. If some reply of the marketplace makes the number of accumulated products equal
  the total that reply reports, the loop of \<open>get_offer_ids\<close> halts: it stops at the first
  such reply and returns the offer ids of the products accumulated up to it.
\<close>

theorem get_offer_ids_terminates:
  assumes "count_matches srv n"
  shows "\<exists>m lid pl. m \<le> n \<and> count_matches srv m \<and> (\<forall>j<m. \<not> count_matches srv j)
           \<and> cursor_acc srv (Suc m) = Some (lid, pl)
           \<and> get_offer_ids srv = Some (Inr (map product_offer_id pl))"
proof -
  define m where "m = (LEAST k. count_matches srv k)"
  have cm: "count_matches srv m" unfolding m_def using assms by (rule LeastI)
  have le: "m \<le> n" unfolding m_def using assms by (rule Least_le)
  have first: "\<not> count_matches srv j" if "j < m" for j
    using that not_less_Least unfolding m_def by blast
  from loop_halts [of srv 0 "[]" "[]" m, OF _ _ cm] first obtain lid pl where
    c: "cursor_acc srv (Suc m) = Some (lid, pl)" and
    l: "get_offer_ids_loop srv 0 [] [] = Some (Inr pl)"
    by auto
  have "get_offer_ids srv = Some (Inr (map product_offer_id pl))"
    by (simp add: get_offer_ids_def l)
  with le cm first c show ?thesis by blast
qed

lemma two_pages_run: "get_offer_ids two_pages = Some (Inr [''A'', ''B'', ''C''])"
  unfolding get_offer_ids_def
  by (subst get_offer_ids_loop.simps, simp add: two_pages_def)
     (subst get_offer_ids_loop.simps, simp add: two_pages_def)

theorem get_offer_ids_terminates_witness:
  "count_matches two_pages 1
   \<and> get_offer_ids two_pages = Some (Inr [''A'', ''B'', ''C''])
   \<and> (\<exists>m lid pl. m \<le> 1 \<and> count_matches two_pages m \<and> (\<forall>j<m. \<not> count_matches two_pages j)
           \<and> cursor_acc two_pages (Suc m) = Some (lid, pl)
           \<and> get_offer_ids two_pages = Some (Inr (map product_offer_id pl)))"
proof -
  have h: "count_matches two_pages 1"
    by (simp add: count_matches_def two_pages_def)
  from get_offer_ids_terminates [OF h] h two_pages_run show ?thesis by simp
qed

section \<open>Batch sizes of the upload requests\<close>

lemma divide_lengths:
  assumes n: "1 \<le> n" and d: "divide lst n = Inr cs"
  shows "\<forall>c \<in> set cs. length c \<le> nat n"
proof -
  have cs: "cs = map (\<lambda>i. py_slice lst i (i + n)) (py_range_up 0 (int (length lst)) n)"
    using n d by (simp add: divide_def py_range_def)
  from lengths_slices [of 0 n "int (length lst)" lst cs] n cs
  have b: "\<forall>c \<in> set (butlast cs). length c = nat n"
    and l: "cs \<noteq> [] \<longrightarrow> length (last cs) \<le> nat n"
    by simp_all
  show ?thesis
  proof
    fix c assume c: "c \<in> set cs"
    then have ne: "cs \<noteq> []" by auto
    then have "cs = butlast cs @ [last cs]" by simp
    then have "set cs = set (butlast cs) \<union> {last cs}"
      by (metis list.simps(15) set_append list.set(1) Un_insert_right sup_bot.right_neutral)
    with c b l ne show "length c \<le> nat n" by auto
  qed
qed

lemma stock_chunks_ok:
  "divide stocks 100 = Inr chunks \<Longrightarrow> list_all within_limit (map UpdateStocks chunks)"
  using divide_lengths [of 100 stocks chunks] by (simp add: list_all_iff)

lemma price_chunks_900_ok:
  "divide prices 900 = Inr chunks \<Longrightarrow> list_all within_limit (map UpdatePrice chunks)"
  using divide_lengths [of 900 prices chunks] by (fastforce simp: list_all_iff)

lemma price_chunks_1000_ok:
  "divide prices 1000 = Inr chunks \<Longrightarrow> list_all within_limit (map UpdatePrice chunks)"
  using divide_lengths [of 1000 prices chunks] by (simp add: list_all_iff)

lemma upload_loop_log:
  "upload_loop ok cs log = (r, log') \<Longrightarrow> list_all within_limit log \<Longrightarrow>
   list_all within_limit cs \<Longrightarrow> list_all within_limit log'"
  by (induction cs arbitrary: log) (auto split: if_splits)

lemma upload_stocks_log:
  assumes "upload_stocks srv ok ws = Some (r, log)"
  shows "list_all within_limit log"
proof -
  from assms obtain res where
    g: "get_offer_ids srv = Some res" by (auto simp: upload_stocks_def split: option.splits)
  show ?thesis
  proof (cases res)
    case (Inl e)
    with assms g show ?thesis by (simp add: upload_stocks_def)
  next
    case (Inr offer_ids)
    obtain sr ws1 ids1 where cs: "create_stocks ws offer_ids = (sr, ws1, ids1)"
      by (cases "create_stocks ws offer_ids") auto
    show ?thesis
    proof (cases sr)
      case (Inl e)
      with assms g Inr cs show ?thesis by (auto simp: upload_stocks_def)
    next
      case st: (Inr stocks)
      show ?thesis
      proof (cases "divide stocks 100")
        case (Inl e)
        with assms g Inr cs st show ?thesis by (auto simp: upload_stocks_def)
      next
        case ch: (Inr chunks)
        obtain ur ulog where u: "upload_loop ok (map UpdateStocks chunks) [] = (ur, ulog)"
          by (cases "upload_loop ok (map UpdateStocks chunks) []") auto
        have "list_all within_limit ulog"
          using upload_loop_log [OF u] stock_chunks_ok [OF ch] by simp
        moreover have "log = ulog"
          using assms g Inr cs st ch u by (auto simp: upload_stocks_def split: sum.splits)
        ultimately show ?thesis by simp
      qed
    qed
  qed
qed

lemma upload_prices_log:
  assumes "upload_prices srv ok ws = Some (r, log)"
  shows "list_all within_limit log"
proof -
  from assms obtain res where
    g: "get_offer_ids srv = Some res" by (auto simp: upload_prices_def split: option.splits)
  show ?thesis
  proof (cases res)
    case (Inl e)
    with assms g show ?thesis by (simp add: upload_prices_def)
  next
    case (Inr offer_ids)
    obtain pr where cp: "create_prices ws offer_ids = (pr, ws, offer_ids)"
      by (simp add: create_prices_def)
    show ?thesis
    proof (cases pr)
      case (Inl e)
      with assms g Inr cp show ?thesis by (auto simp: upload_prices_def)
    next
      case ps: (Inr prices)
      show ?thesis
      proof (cases "divide prices 1000")
        case (Inl e)
        with assms g Inr cp ps show ?thesis by (auto simp: upload_prices_def)
      next
        case ch: (Inr chunks)
        obtain ur ulog where u: "upload_loop ok (map UpdatePrice chunks) [] = (ur, ulog)"
          by (cases "upload_loop ok (map UpdatePrice chunks) []") auto
        have "list_all within_limit ulog"
          using upload_loop_log [OF u] price_chunks_1000_ok [OF ch] by simp
        moreover have "log = ulog"
          using assms g Inr cp ps ch u by (auto simp: upload_prices_def split: sum.splits)
        ultimately show ?thesis by simp
      qed
    qed
  qed
qed

lemma main_log:
  assumes "main srv download ok = Some (r, log)"
  shows "list_all within_limit log"
proof -
  from assms obtain res where
    g: "get_offer_ids srv = Some res" by (auto simp: main_def split: option.splits)
  show ?thesis
  proof (cases res)
    case (Inl e)
    with assms g show ?thesis by (simp add: main_def)
  next
    case (Inr offer_ids)
    show ?thesis
    proof (cases download)
      case (Inl e)
      with assms g Inr show ?thesis by (simp add: main_def)
    next
      case dl: (Inr ws)
      obtain sr ws1 ids1 where cs: "create_stocks ws offer_ids = (sr, ws1, ids1)"
        by (cases "create_stocks ws offer_ids") auto
      show ?thesis
      proof (cases sr)
        case (Inl e)
        with assms g Inr dl cs show ?thesis by (simp add: main_def)
      next
        case st: (Inr stocks)
        show ?thesis
        proof (cases "divide stocks 100")
          case (Inl e)
          with assms g Inr dl cs st show ?thesis by (simp add: main_def)
        next
          case ch: (Inr chunks)
          obtain ur ulog where u: "upload_loop ok (map UpdateStocks chunks) [] = (ur, ulog)"
            by (cases "upload_loop ok (map UpdateStocks chunks) []") auto
          have ul: "list_all within_limit ulog"
            using upload_loop_log [OF u] stock_chunks_ok [OF ch] by simp
          show ?thesis
          proof (cases ur)
            case (Inl e)
            with assms g Inr dl cs st ch u ul show ?thesis by (simp add: main_def)
          next
            case uok: (Inr x)
            obtain pr where cp: "create_prices ws1 ids1 = (pr, ws1, ids1)"
              by (simp add: create_prices_def)
            show ?thesis
            proof (cases pr)
              case (Inl e)
              with assms g Inr dl cs st ch u ul uok cp show ?thesis by (simp add: main_def)
            next
              case ps: (Inr prices)
              show ?thesis
              proof (cases "divide prices 900")
                case (Inl e)
                with assms g Inr dl cs st ch u ul uok cp ps show ?thesis by (simp add: main_def)
              next
                case pch: (Inr pchunks)
                obtain vr vlog where v: "upload_loop ok (map UpdatePrice pchunks) ulog = (vr, vlog)"
                  by (cases "upload_loop ok (map UpdatePrice pchunks) ulog") auto
                have "list_all within_limit vlog"
                  using upload_loop_log [OF v ul] price_chunks_900_ok [OF pch] by simp
                moreover have "log = vlog"
                  using assms g Inr dl cs st ch u uok cp ps pch v
                  by (auto simp: main_def split: sum.splits)
                ultimately show ?thesis by simp
              qed
            qed
          qed
        qed
      qed
    qed
  qed
qed

text \<open>
  C9. In every run of \<open>main\<close>, of \<open>upload_stocks\<close> and of \<open>upload_prices\<close> that ends, every
  request sent to the stock endpoint carries at most 100 entries and every request sent
  to the price endpoint carries at most 1000 (\<open>main\<close> cuts prices into chunks of 900,
  \<open>upload_prices\<close> into chunks of 1000).
\<close>

theorem upload_batches_within_limits:
  "(main srv download ok = Some (r, log) \<longrightarrow> list_all within_limit log)
   \<and> (upload_stocks srv ok ws = Some (rs, slog) \<longrightarrow> list_all within_limit slog)
   \<and> (upload_prices srv ok ws = Some (rp, plog) \<longrightarrow> list_all within_limit plog)"
  using main_log upload_stocks_log upload_prices_log by blast


lemma divide_stocks_ABC: "divide stocks_ABC 100 = Inr [stocks_ABC]"
  by (simp add: divide_def py_range_def py_slice_def clamp_index_def py_range_up.simps stocks_ABC_def)

lemma divide_prices_AB: "divide prices_AB n = Inr [prices_AB]" if "n = 900 \<or> n = 1000"
  using that
  by (auto simp: divide_def py_range_def py_slice_def clamp_index_def py_range_up.simps prices_AB_def)

lemma divide_Nil: "divide ([] :: price_entry list) 900 = Inr []"
  by (simp add: divide_def py_range_def py_range_up.simps)

lemma stocks_AXB: "create_stocks rows_AXB [''A'', ''B'', ''C''] = (Inr stocks_ABC, rows_AXB, [''C''])"
  by (simp add: create_stocks_def rows_AXB_def row_def stocks_ABC_def)

lemma prices_AXB: "create_prices rows_AXB [''A'', ''B'', ''C''] = (Inr prices_AB, rows_AXB, [''A'', ''B'', ''C''])"
  by (simp add: create_prices_def rows_AXB_def row_def pc_5990 pc_789 price_of_def prices_AB_def)

lemma prices_AXB_after: "create_prices rows_AXB [''C''] = (Inr [], rows_AXB, [''C''])"
  by (simp add: create_prices_def rows_AXB_def row_def)

theorem upload_batches_within_limits_witness:
  "main two_pages (Inr rows_AXB) always_ok = Some (None, [UpdateStocks stocks_ABC])
   \<and> upload_stocks two_pages always_ok rows_AXB
       = Some (Inr ([\<lparr>offer_id = ''A'', stock = 100\<rparr>], stocks_ABC), [UpdateStocks stocks_ABC])
   \<and> upload_prices two_pages always_ok rows_AXB = Some (Inr prices_AB, [UpdatePrice prices_AB])
   \<and> list_all within_limit [UpdateStocks stocks_ABC]
   \<and> list_all within_limit [UpdatePrice prices_AB]"
proof -
  have m: "main two_pages (Inr rows_AXB) always_ok = Some (None, [UpdateStocks stocks_ABC])"
    by (simp add: main_def two_pages_run stocks_AXB divide_stocks_ABC always_ok_def
          prices_AXB_after divide_Nil)
  have s: "upload_stocks two_pages always_ok rows_AXB
       = Some (Inr ([\<lparr>offer_id = ''A'', stock = 100\<rparr>], stocks_ABC), [UpdateStocks stocks_ABC])"
    by (simp add: upload_stocks_def two_pages_run stocks_AXB divide_stocks_ABC always_ok_def)
       (simp add: stocks_ABC_def)
  have p: "upload_prices two_pages always_ok rows_AXB = Some (Inr prices_AB, [UpdatePrice prices_AB])"
    by (simp add: upload_prices_def two_pages_run prices_AXB divide_prices_AB always_ok_def)
  from upload_batches_within_limits [of two_pages "Inr rows_AXB" always_ok None
      "[UpdateStocks stocks_ABC]" rows_AXB
      "Inr ([\<lparr>offer_id = ''A'', stock = 100\<rparr>], stocks_ABC)" "[UpdateStocks stocks_ABC]"
      "Inr prices_AB" "[UpdatePrice prices_AB]"] m s p
  show ?thesis by simp
qed

end
